theory Spec2Isabelle
  imports Complex_Main "HOL-Library.Sublist" "HOL-Library.AList"
begin

section \<open>Circuit breaker (retry.ts, class CircuitBreaker)\<close>

text \<open>
  The class keeps a failure counter, the time of the last recorded failure and one of three
  states.  Times are milliseconds as returned by \<^verbatim>\<open>Date.now()\<close>; the model passes the
  clock reading as the argument \<open>now\<close> of every method that reads the clock.  The counter
  starts at 0 and is only incremented, decremented with \<^verbatim>\<open>Math.max(0, failures - 1)\<close> or
  reset to 0, so it is a natural number.
\<close>

datatype breaker_state = Closed | Open | HalfOpen

record CircuitBreaker =
  failures :: nat
  lastFailureTime :: int
  state :: breaker_state
  failureThreshold :: nat
  resetTimeout :: int
  halfOpenTimeout :: int

definition new_CircuitBreaker :: "nat \<Rightarrow> int \<Rightarrow> int \<Rightarrow> CircuitBreaker" where
  "new_CircuitBreaker thr rst hot =
     \<lparr>failures = 0, lastFailureTime = 0, state = Closed,
      failureThreshold = thr, resetTimeout = rst, halfOpenTimeout = hot\<rparr>"

text \<open>The constructor's default arguments: 5 failures, 60000 ms, 30000 ms.\<close>

definition default_CircuitBreaker :: CircuitBreaker where
  "default_CircuitBreaker = new_CircuitBreaker 5 60000 30000"

text \<open>\<^verbatim>\<open>canExecute\<close> returns its boolean together with the updated breaker.\<close>

definition canExecute :: "int \<Rightarrow> CircuitBreaker \<Rightarrow> bool \<times> CircuitBreaker" where
  "canExecute now b =
     (if state b = Open then
        (if now - lastFailureTime b > resetTimeout b
         then (True, b\<lparr>state := HalfOpen\<rparr>)
         else (False, b))
      else if state b = HalfOpen then
        (if now - lastFailureTime b > halfOpenTimeout b
         then (True, b\<lparr>state := Closed, failures := 0\<rparr>)
         else (True, b))
      else (True, b))"

definition recordSuccess :: "CircuitBreaker \<Rightarrow> CircuitBreaker" where
  "recordSuccess b =
     (if state b = HalfOpen then b\<lparr>state := Closed, failures := 0\<rparr>
      else if state b = Closed then b\<lparr>failures := max 0 (failures b - 1)\<rparr>
      else b)"

definition recordFailure :: "int \<Rightarrow> CircuitBreaker \<Rightarrow> CircuitBreaker" where
  "recordFailure now b =
     (let b1 = b\<lparr>failures := failures b + 1, lastFailureTime := now\<rparr>
      in if failures b1 \<ge> failureThreshold b1 \<and> state b1 \<noteq> Open
         then b1\<lparr>state := Open\<rparr> else b1)"

text \<open>A run of consecutive recorded failures, one per clock reading of the list.\<close>

definition recordFailures :: "int list \<Rightarrow> CircuitBreaker \<Rightarrow> CircuitBreaker" where
  "recordFailures ts b = fold recordFailure ts b"

section \<open>Strings\<close>

text \<open>
  A JavaScript string is a sequence of UTF-16 code units.  The model covers the code units
  below 256: a \<^typ>\<open>char\<close> is one code unit, \<open>length\<close> is \<^verbatim>\<open>.length\<close> and
  \<open>take n\<close> is \<^verbatim>\<open>.slice(0, n)\<close>.
\<close>

definition dquote :: char where "dquote = CHR 0x22"
definition backslash :: char where "backslash = CHR 0x5C"
definition newline :: char where "newline = CHR 0x0A"

text \<open>\<^verbatim>\<open>Buffer.byteLength(s, 'utf8')\<close>: one byte below U+0080, two up to U+00FF.\<close>

definition byteLength :: "string \<Rightarrow> nat" where
  "byteLength s = sum_list (map (\<lambda>c. if (of_char c :: nat) < 128 then 1 else 2) s)"

text \<open>\<^verbatim>\<open>s.includes(sep)\<close>: \<open>sep\<close> starts at some position of \<open>s\<close>.\<close>

fun js_includes :: "string \<Rightarrow> string \<Rightarrow> bool" where
  "js_includes [] sep = (sep = [])"
| "js_includes (c # cs) sep = (prefix sep (c # cs) \<or> js_includes cs sep)"

section \<open>Event stream (sse-stream.ts, class OptimizedSSEStream)\<close>

text \<open>
  The transport is the HTTP response: the chunks handed to \<^verbatim>\<open>response.write\<close>, in order,
  and whether \<^verbatim>\<open>response.end\<close> was called.  \<^verbatim>\<open>response.write\<close> is modelled as never
  throwing; waiting for the drain event changes no field.  The timer is the flag
  \<open>flushTimer\<close> (true while the interval is armed).
\<close>

record ServerResponse =
  written :: "string list"
  ended :: bool

record OptimizedSSEStream =
  sse_response :: ServerResponse
  buffer :: "string list"
  bufferSize :: nat
  flushTimer :: bool
  highWaterMark :: int
  chunkSize :: int
  flushInterval :: int
  isClosed :: bool

text \<open>The constructor, with the defaults of the options: 16384, 8192 and 100.\<close>

definition new_OptimizedSSEStream :: "ServerResponse \<Rightarrow> OptimizedSSEStream" where
  "new_OptimizedSSEStream r =
     \<lparr>sse_response = r, buffer = [], bufferSize = 0, flushTimer = True,
      highWaterMark = 16384, chunkSize = 8192, flushInterval = 100, isClosed = False\<rparr>"

text \<open>
  The inner loop of \<^verbatim>\<open>flush\<close> shifts items off the buffer into the chunk while the chunk
  is below \<open>chunkSize\<close> bytes; it returns the chunk and the rest of the buffer.
\<close>

fun collect_chunk :: "int \<Rightarrow> string list \<Rightarrow> string list \<Rightarrow> nat \<Rightarrow> string list \<times> string list" where
  "collect_chunk limit [] chunk n = (chunk, [])"
| "collect_chunk limit (item # rest) chunk n =
     (if int n < limit
      then collect_chunk limit rest (chunk @ [item]) (n + byteLength item)
      else (chunk, item # rest))"

text \<open>
  The outer loop writes one chunk per round until the buffer is empty.  With a chunk size
  that is not positive the inner loop takes nothing and the outer loop never ends, so the
  loop is a partial function: \<open>None\<close> is the run that does not return.
\<close>

partial_function (option) drain :: "int \<Rightarrow> string list \<Rightarrow> ServerResponse \<Rightarrow> ServerResponse option" where
  "drain limit buf r =
     (if buf = [] then Some r
      else drain limit (snd (collect_chunk limit buf [] 0))
             (r\<lparr>written := written r @ [concat (fst (collect_chunk limit buf [] 0))]\<rparr>))"

definition flush :: "OptimizedSSEStream \<Rightarrow> OptimizedSSEStream option" where
  "flush s =
     (if buffer s = [] \<or> isClosed s then Some s
      else (case drain (chunkSize s) (buffer s) (sse_response s) of
              None \<Rightarrow> None
            | Some r \<Rightarrow> Some (s\<lparr>sse_response := r, buffer := [], bufferSize := 0\<rparr>)))"

definition stream_write :: "string \<Rightarrow> OptimizedSSEStream \<Rightarrow> OptimizedSSEStream option" where
  "stream_write data s =
     (if isClosed s then Some s
      else (let s1 = s\<lparr>buffer := buffer s @ [data],
                         bufferSize := bufferSize s + byteLength data\<rparr>
            in if int (bufferSize s1) \<ge> highWaterMark s1 then flush s1 else Some s1))"

definition close :: "OptimizedSSEStream \<Rightarrow> OptimizedSSEStream option" where
  "close s =
     (if isClosed s then Some s
      else (case flush (s\<lparr>isClosed := True, flushTimer := False\<rparr>) of
              None \<Rightarrow> None
            | Some s2 \<Rightarrow> Some (s2\<lparr>sse_response := (sse_response s2)\<lparr>ended := True\<rparr>\<rparr>)))"

section \<open>Cache (cache.ts, class LRUCache)\<close>

text \<open>
  The entries live in a JavaScript \<^verbatim>\<open>Map\<close>, which iterates in insertion order: an
  association list with distinct keys, where \<^verbatim>\<open>Map.set\<close> replaces the value of a key in
  place or appends a new key (\<^const>\<open>AList.update\<close>) and \<^verbatim>\<open>Map.delete\<close> removes the key
  (\<^const>\<open>AList.delete\<close>).  Every method reads the clock once; the reading is the argument
  \<open>now\<close>.
\<close>

record 'v CacheEntry =
  val :: 'v
  expiresAt :: int
  lastAccessed :: int

record 'v LRUCache =
  cache :: "(string \<times> 'v CacheEntry) list"
  ttl :: int
  maxSize :: int


definition evictExpired :: "int \<Rightarrow> 'v LRUCache \<Rightarrow> 'v LRUCache" where
  "evictExpired now c = c\<lparr>cache := filter (\<lambda>(k, e). \<not> now > expiresAt e) (cache c)\<rparr>"

text \<open>
  The scan of \<^verbatim>\<open>evictLRU\<close>: \<open>lruKey\<close> starts as null and \<open>lruTime\<close> as \<^verbatim>\<open>Infinity\<close>
  (both \<open>None\<close>); an entry replaces them when its \<open>lastAccessed\<close> is strictly smaller.
\<close>

definition lru_step :: "string \<times> 'v CacheEntry \<Rightarrow> string option \<times> int option \<Rightarrow> string option \<times> int option" where
  "lru_step ke acc =
     (if (case snd acc of None \<Rightarrow> True | Some t \<Rightarrow> lastAccessed (snd ke) < t)
      then (Some (fst ke), Some (lastAccessed (snd ke))) else acc)"

definition lru_scan :: "(string \<times> 'v CacheEntry) list \<Rightarrow> string option \<times> int option" where
  "lru_scan es = fold lru_step es (None, None)"

text \<open>
  The guard \<^verbatim>\<open>if (lruKey)\<close> is a truthiness test: it fails for null and for the empty
  string.
\<close>

definition evictLRU :: "'v LRUCache \<Rightarrow> 'v LRUCache" where
  "evictLRU c =
     (case fst (lru_scan (cache c)) of
        None \<Rightarrow> c
      | Some k \<Rightarrow> if k \<noteq> [] then c\<lparr>cache := AList.delete k (cache c)\<rparr> else c)"

definition cache_set :: "string \<Rightarrow> 'v \<Rightarrow> int option \<Rightarrow> int \<Rightarrow> 'v LRUCache \<Rightarrow> 'v LRUCache" where
  "cache_set key v customTtl now c =
     (let t = (case customTtl of None \<Rightarrow> ttl c | Some t' \<Rightarrow> t');
          c1 = (if int (length (cache c)) \<ge> maxSize c
                then (let c2 = evictExpired now c
                      in if int (length (cache c2)) \<ge> maxSize c2 then evictLRU c2 else c2)
                else c)
      in c1\<lparr>cache := AList.update key
                         \<lparr>val = v, expiresAt = now + t, lastAccessed = now\<rparr> (cache c1)\<rparr>)"

definition cache_get :: "string \<Rightarrow> int \<Rightarrow> 'v LRUCache \<Rightarrow> 'v option \<times> 'v LRUCache" where
  "cache_get key now c =
     (case map_of (cache c) key of
        None \<Rightarrow> (None, c)
      | Some e \<Rightarrow>
          if now > expiresAt e then (None, c\<lparr>cache := AList.delete key (cache c)\<rparr>)
          else (Some (val e),
                c\<lparr>cache := AList.update key (e\<lparr>lastAccessed := now\<rparr>) (cache c)\<rparr>))"


section \<open>Messages, JSON text and keys (openrouter.ts, cache.ts, http-client.ts)\<close>

datatype role = User | Assistant | System

record Message =
  role :: role
  content :: string

text \<open>
  A model's answer: \<open>content\<close> is a string or null; \<open>reasoning_details\<close> is optional and
  opaque, kept as its JSON text.
\<close>

record ModelResponse =
  response_content :: "string option"
  reasoning_details :: "string option"

definition role_name :: "role \<Rightarrow> string" where
  "role_name r = (case r of User \<Rightarrow> ''user'' | Assistant \<Rightarrow> ''assistant'' | System \<Rightarrow> ''system'')"

text \<open>
  \<^verbatim>\<open>JSON.stringify\<close> of a string: the double quote, the backslash and the control
  characters are escaped, everything else is copied.
\<close>

definition hex_digit :: "nat \<Rightarrow> char" where
  "hex_digit n = ''0123456789abcdef'' ! (n mod 16)"

definition json_escape :: "char \<Rightarrow> string" where
  "json_escape c =
     (let n = (of_char c :: nat) in
      if n = 0x22 then [backslash, dquote]
      else if n = 0x5C then [backslash, backslash]
      else if n = 8 then [backslash, CHR ''b'']
      else if n = 9 then [backslash, CHR ''t'']
      else if n = 10 then [backslash, CHR ''n'']
      else if n = 12 then [backslash, CHR ''f'']
      else if n = 13 then [backslash, CHR ''r'']
      else if n < 0x20 then [backslash, CHR ''u'', CHR ''0'', CHR ''0'', hex_digit (n div 16), hex_digit n]
      else [c])"

definition json_string :: "string \<Rightarrow> string" where
  "json_string s = [dquote] @ concat (map json_escape s) @ [dquote]"

definition json_key :: "string \<Rightarrow> string" where
  "json_key k = [dquote] @ k @ [dquote] @ '':''"

definition json_message :: "Message \<Rightarrow> string" where
  "json_message m =
     ''{'' @ json_key ''role'' @ json_string (role_name (role m)) @ '',''
           @ json_key ''content'' @ json_string (content m) @ ''}''"

fun join :: "string \<Rightarrow> string list \<Rightarrow> string" where
  "join sep [] = []"
| "join sep [x] = x"
| "join sep (x # y # ys) = x @ sep @ join sep (y # ys)"

definition json_messages :: "Message list \<Rightarrow> string" where
  "json_messages ms = ''['' @ join '','' (map json_message ms) @ '']''"


definition getResponseCacheKey :: "string \<Rightarrow> Message list \<Rightarrow> string" where
  "getResponseCacheKey model ms = ''response:'' @ model @ '':'' @ take 200 (json_messages ms)"

definition getTitleCacheKey :: "string \<Rightarrow> string" where
  "getTitleCacheKey query = ''title:'' @ take 100 query"

text \<open>
  \<^verbatim>\<open>getRequestKey\<close>: \<open>body\<close> and \<open>method\<close> may be undefined (\<open>None\<close>); an empty string is
  falsy like undefined.
\<close>

definition getRequestKey :: "string \<Rightarrow> string option \<Rightarrow> string option \<Rightarrow> string" where
  "getRequestKey url body method =
     url @ '':''
       @ (case method of None \<Rightarrow> ''GET'' | Some m \<Rightarrow> if m = [] then ''GET'' else m) @ '':''
       @ (case body of None \<Rightarrow> [] | Some b \<Rightarrow> if b = [] then [] else take 100 b)"

text \<open>
  \<^verbatim>\<open>optimizedFetch\<close>.  The client's state is the map of pending requests (key to promise,
  in insertion order) and the physical \<^verbatim>\<open>fetch\<close> calls issued so far; a promise is named
  by the position of its call in that list.  The caller gets the promise of a fresh call, or
  a clone of the response of the pending one.
\<close>

record http_client =
  pendingRequests :: "(string \<times> nat) list"
  fetches :: "(string \<times> string \<times> string option) list"



text \<open>The \<^verbatim>\<open>finally\<close> handler of a fetch removes its key when the fetch settles.\<close>

definition fetch_settled :: "string \<Rightarrow> http_client \<Rightarrow> http_client" where
  "fetch_settled requestKey st = st\<lparr>pendingRequests := AList.delete requestKey (pendingRequests st)\<rparr>"



section \<open>Retry with backoff (retry.ts, withRetry)\<close>

text \<open>Character classes of the regular expressions: \<^verbatim>\<open>\d\<close>, \<^verbatim>\<open>[A-Z]\<close>, \<^verbatim>\<open>\w\<close> and \<^verbatim>\<open>\s\<close>
  (on code units below 256: tab to carriage return, space and no-break space).\<close>

definition is_digit :: "char \<Rightarrow> bool" where
  "is_digit c = (48 \<le> (of_char c :: nat) \<and> (of_char c :: nat) \<le> 57)"

definition is_upper :: "char \<Rightarrow> bool" where
  "is_upper c = (65 \<le> (of_char c :: nat) \<and> (of_char c :: nat) \<le> 90)"



definition is_space :: "char \<Rightarrow> bool" where
  "is_space c = ((9 \<le> (of_char c :: nat) \<and> (of_char c :: nat) \<le> 13)
                 \<or> (of_char c :: nat) = 32 \<or> (of_char c :: nat) = 160)"

definition digit_value :: "char \<Rightarrow> nat" where
  "digit_value c = (of_char c :: nat) - 48"

text \<open>\<^verbatim>\<open>parseInt(s, 10)\<close> on a string of digits.\<close>

definition parseInt :: "string \<Rightarrow> nat" where
  "parseInt s = foldl (\<lambda>n c. 10 * n + digit_value c) 0 s"



datatype retryable = Status nat | Name string




record RetryOptions =
  maxRetries :: int
  initialDelay :: int
  maxDelay :: int
  backoffMultiplier :: int
  retryableErrors :: "retryable list"

definition default_retryableErrors :: "retryable list" where
  "default_retryableErrors =
     [Status 429, Status 500, Status 502, Status 503, Status 504,
      Name ''AbortError'', Name ''ECONNRESET'', Name ''ETIMEDOUT'']"

text \<open>The defaults of \<open>withRetry\<close>, and the options \<open>queryModel\<close> passes.\<close>

definition default_RetryOptions :: RetryOptions where
  "default_RetryOptions =
     \<lparr>maxRetries = 3, initialDelay = 1000, maxDelay = 30000, backoffMultiplier = 2,
      retryableErrors = default_retryableErrors\<rparr>"


text \<open>
  The world \<open>withRetry\<close> runs in: the clock, the table of breakers (a \<^verbatim>\<open>Map\<close> from key to
  breaker), the durations handed to \<^verbatim>\<open>sleep\<close> so far and the number of attempts made so
  far.  The operation \<open>fn\<close> is given by what its \<open>k\<close>-th invocation does: the time it takes
  and its result, a thrown value (\<open>Inl\<close>) or the value it resolves to (\<open>Inr\<close>).
\<close>

record retry_world =
  clock :: int
  circuitBreakers :: "(string \<times> CircuitBreaker) list"
  sleeps :: "int list"
  attempts :: nat

definition getCircuitBreaker :: "string \<Rightarrow> retry_world \<Rightarrow> CircuitBreaker \<times> retry_world" where
  "getCircuitBreaker key w =
     (case map_of (circuitBreakers w) key of
        Some b \<Rightarrow> (b, w)
      | None \<Rightarrow> (default_CircuitBreaker,
                 w\<lparr>circuitBreakers := AList.update key default_CircuitBreaker (circuitBreakers w)\<rparr>))"

text \<open>A method call on the breaker object of \<open>key\<close> changes the object in the table.\<close>

definition on_breaker :: "string \<Rightarrow> (CircuitBreaker \<Rightarrow> CircuitBreaker) \<Rightarrow> retry_world \<Rightarrow> retry_world" where
  "on_breaker key f w =
     w\<lparr>circuitBreakers := map (\<lambda>(k, b). if k = key then (k, f b) else (k, b)) (circuitBreakers w)\<rparr>"

definition sleep :: "int \<Rightarrow> retry_world \<Rightarrow> retry_world" where
  "sleep ms w = w\<lparr>clock := clock w + max 0 ms, sleeps := sleeps w @ [ms]\<rparr>"




section \<open>Plain objects used as dictionaries\<close>

text \<open>
  \<open>queryModelsParallel\<close> and \<open>calculateAggregateRankings\<close> keep their tables in plain
  objects.  A plain object holds its own string-keyed properties in creation order:
  assigning to an existing key replaces the value in place, assigning to a new key appends
  it, and assigning to \<^verbatim>\<open>__proto__\<close> sets the prototype and creates no own property.
  \<^verbatim>\<open>Object.entries\<close> lists the own properties, first the keys that are array indices
  (canonical decimal numerals below \<open>2^32 - 1\<close>) in ascending numeric order, then the other
  keys in creation order.
\<close>

type_synonym 'v js_object = "(string \<times> 'v) list"

definition obj_assign :: "string \<Rightarrow> 'v \<Rightarrow> 'v js_object \<Rightarrow> 'v js_object" where
  "obj_assign k v obj = (if k = ''__proto__'' then obj else AList.update k v obj)"

definition is_array_index :: "string \<Rightarrow> bool" where
  "is_array_index k =
     (k \<noteq> [] \<and> list_all is_digit k \<and> (hd k \<noteq> CHR ''0'' \<or> length k = 1)
      \<and> parseInt k < 4294967295)"

definition Object_entries :: "'v js_object \<Rightarrow> (string \<times> 'v) list" where
  "Object_entries obj =
     sort_key (\<lambda>p. parseInt (fst p)) (filter (\<lambda>p. is_array_index (fst p)) obj)
       @ filter (\<lambda>p. \<not> is_array_index (fst p)) obj"


section \<open>Ranking parser (council.ts, parseRankingFromText)\<close>

text \<open>
  \<^verbatim>\<open>s.split(sep)\<close> for a non-empty separator: the parts between the occurrences of the
  separator, found from left to right without overlap.  \<open>part\<close> is the part being read.
\<close>

function js_split_from :: "string \<Rightarrow> string \<Rightarrow> string \<Rightarrow> string list" where
  "js_split_from sep part [] = [part]"
| "js_split_from sep part (c # cs) =
     (if sep \<noteq> [] \<and> prefix sep (c # cs)
      then part # js_split_from sep [] (drop (length sep) (c # cs))
      else js_split_from sep (part @ [c]) cs)"
  by pat_completeness auto
termination
  by (relation "measure (\<lambda>(sep, part, s). length s)") auto

definition js_split :: "string \<Rightarrow> string \<Rightarrow> string list" where
  "js_split s sep = js_split_from sep [] s"

text \<open>
  The two regular expressions, as matchers at the head of a string that return the length
  of the match.  \<^verbatim>\<open>/Response [A-Z]/\<close> matches ten characters.
  \<^verbatim>\<open>/\d+\.\s*Response [A-Z]/\<close> matches the longest run of digits, a dot, the longest run
  of white space and a label; giving back digits or white space never helps, since a digit
  is not a dot and white space is not the letter R.
\<close>

definition match_label :: "string \<Rightarrow> nat option" where
  "match_label s =
     (if prefix ''Response '' s \<and> (case drop 9 s of [] \<Rightarrow> False | c # _ \<Rightarrow> is_upper c)
      then Some 10 else None)"

definition match_numbered :: "string \<Rightarrow> nat option" where
  "match_numbered s =
     (if takeWhile is_digit s = [] then None
      else (case dropWhile is_digit s of
              [] \<Rightarrow> None
            | c # r \<Rightarrow>
                if c \<noteq> CHR ''.'' then None
                else (case match_label (dropWhile is_space r) of
                        None \<Rightarrow> None
                      | Some n \<Rightarrow>
                          Some (length (takeWhile is_digit s) + 1
                                + length (takeWhile is_space r) + n))))"

text \<open>
  All matches of a global regular expression, from left to right: after a match the search
  goes on behind it (one character further after an empty match).
\<close>

function match_all :: "(string \<Rightarrow> nat option) \<Rightarrow> string \<Rightarrow> string list" where
  "match_all m [] = []"
| "match_all m (c # cs) =
     (case m (c # cs) of
        None \<Rightarrow> match_all m cs
      | Some n \<Rightarrow>
          if n = 0 then [] # match_all m cs
          else take n (c # cs) # match_all m (drop n (c # cs)))"
  by pat_completeness auto
termination
  by (relation "measure (\<lambda>(m, s). length s)") auto

text \<open>\<^verbatim>\<open>s.match(/re/g)\<close> is null when nothing matches, else the array of the matches.\<close>

definition js_match_g :: "(string \<Rightarrow> nat option) \<Rightarrow> string \<Rightarrow> string list option" where
  "js_match_g m s = (case match_all m s of [] \<Rightarrow> None | x # xs \<Rightarrow> Some (x # xs))"

text \<open>\<^verbatim>\<open>s.match(/re/)\<close> without the global flag: the first match, or null.\<close>

fun js_match :: "(string \<Rightarrow> nat option) \<Rightarrow> string \<Rightarrow> string option" where
  "js_match m [] = None"
| "js_match m (c # cs) =
     (case m (c # cs) of Some n \<Rightarrow> Some (take n (c # cs)) | None \<Rightarrow> js_match m cs)"

definition parseRankingFromText :: "string \<Rightarrow> string list" where
  "parseRankingFromText rankingText =
     (let anywhere = (case js_match_g match_label rankingText of None \<Rightarrow> [] | Some ms \<Rightarrow> ms) in
      if js_includes rankingText ''FINAL RANKING:'' then
        (let parts = js_split rankingText ''FINAL RANKING:'' in
         if length parts \<ge> 2 then
           (let rankingSection = parts ! 1;
                section_labels = (case js_match_g match_label rankingSection of
                                    None \<Rightarrow> anywhere | Some ms \<Rightarrow> ms)
            in case js_match_g match_numbered rankingSection of
                 None \<Rightarrow> section_labels
               | Some numberedMatches \<Rightarrow>
                   if length numberedMatches > 0
                   then filter (\<lambda>x. x \<noteq> [])
                          (map (\<lambda>m. case js_match match_label m of Some x \<Rightarrow> x | None \<Rightarrow> [])
                               numberedMatches)
                   else section_labels)
         else anywhere)
      else anywhere)"

section \<open>Council orchestration (openrouter.ts, council.ts)\<close>

text \<open>
  The council calls \<open>queryModel\<close> with caching off, so every call is one retried exchange
  with the network and the cache is not touched.  The environment \<open>net\<close> gives the answer to
  the \<open>k\<close>-th call of the round for a model and its messages (\<open>None\<close> for null), and the
  log records the calls issued, in order.
\<close>

type_synonym network = "nat \<Rightarrow> string \<Rightarrow> Message list \<Rightarrow> ModelResponse option"

type_synonym call_log = "(string \<times> Message list) list"

definition queryModel_uncached ::
  "network \<Rightarrow> string \<Rightarrow> Message list \<Rightarrow> call_log \<Rightarrow> ModelResponse option \<times> call_log" where
  "queryModel_uncached net model messages calls =
     (net (length calls) model messages, calls @ [(model, messages)])"

text \<open>\<^verbatim>\<open>models.map((model) => queryModel(...))\<close> starts the calls in list order.\<close>

fun query_all ::
  "network \<Rightarrow> string list \<Rightarrow> Message list \<Rightarrow> call_log \<Rightarrow> ModelResponse option list \<times> call_log" where
  "query_all net [] messages calls = ([], calls)"
| "query_all net (m # ms) messages calls =
     (fst (queryModel_uncached net m messages calls)
        # fst (query_all net ms messages (snd (queryModel_uncached net m messages calls))),
      snd (query_all net ms messages (snd (queryModel_uncached net m messages calls))))"

text \<open>
  \<^verbatim>\<open>Promise.all\<close>: \<open>completion\<close> lists the indices of the tasks in the order in which they
  settle.  Each settled value is stored at the index of its task; the array is delivered
  once every slot is filled, and never (\<open>None\<close>) if some task does not settle.
\<close>

definition promise_all :: "'a list \<Rightarrow> nat list \<Rightarrow> 'a list option" where
  "promise_all tasks completion =
     (let slots = fold (\<lambda>i vs. vs[i := Some (tasks ! i)])
                    (filter (\<lambda>i. i < length tasks) completion)
                    (replicate (length tasks) None)
      in if list_all (\<lambda>v. v \<noteq> None) slots then Some (map the slots) else None)"

definition queryModelsParallel ::
  "network \<Rightarrow> string list \<Rightarrow> Message list \<Rightarrow> nat list \<Rightarrow> call_log
     \<Rightarrow> (ModelResponse option js_object \<times> call_log) option" where
  "queryModelsParallel net models messages completion calls =
     (case promise_all (fst (query_all net models messages calls)) completion of
        None \<Rightarrow> None
      | Some responses \<Rightarrow>
          Some (fold (\<lambda>i result. obj_assign (models ! i) (responses ! i) result)
                  [0..<length models] [],
                snd (query_all net models messages calls)))"

record Attributed =
  model :: string

record Stage1Result = Attributed +
  response :: string





text \<open>\<^verbatim>\<open>response.content || ''\<close>: null and the empty string both give the empty string.\<close>

definition content_or_empty :: "ModelResponse \<Rightarrow> string" where
  "content_or_empty r = (case response_content r of None \<Rightarrow> [] | Some c \<Rightarrow> c)"

definition stage1CollectResponses ::
  "network \<Rightarrow> string list \<Rightarrow> string \<Rightarrow> nat list \<Rightarrow> call_log
     \<Rightarrow> (Stage1Result list \<times> call_log) option" where
  "stage1CollectResponses net COUNCIL_MODELS userQuery completion calls =
     (case queryModelsParallel net COUNCIL_MODELS [\<lparr>role = User, content = userQuery\<rparr>]
             completion calls of
        None \<Rightarrow> None
      | Some (responses, calls1) \<Rightarrow>
          Some (map (\<lambda>p. \<lparr>model = fst p, response = content_or_empty (the (snd p))\<rparr>)
                  (filter (\<lambda>p. snd p \<noteq> None) (Object_entries responses)),
                calls1))"



















section \<open>The aggregation in the words of the specification\<close>





definition first_seen :: "'a list \<Rightarrow> 'a list" where
  "first_seen xs = rev (remdups (rev xs))"





section \<open>Properties of the circuit breaker\<close>

lemma recordFailure_fields:
  "failures (recordFailure now b) = Suc (failures b)"
  "lastFailureTime (recordFailure now b) = now"
  "failureThreshold (recordFailure now b) = failureThreshold b"
  "resetTimeout (recordFailure now b) = resetTimeout b"
  "halfOpenTimeout (recordFailure now b) = halfOpenTimeout b"
  by (simp_all add: recordFailure_def Let_def)

lemma recordFailure_state:
  "state (recordFailure now b) =
     (if failureThreshold b \<le> Suc (failures b) then Open else state b)"
  by (simp add: recordFailure_def Let_def)

lemma recordFailures_snoc:
  "recordFailures (ts @ [t]) b = recordFailure t (recordFailures ts b)"
  by (simp add: recordFailures_def)

lemma recordFailures_fields:
  "failures (recordFailures ts b) = failures b + length ts"
  "failureThreshold (recordFailures ts b) = failureThreshold b"
  "resetTimeout (recordFailures ts b) = resetTimeout b"
  "halfOpenTimeout (recordFailures ts b) = halfOpenTimeout b"
  by (induction ts rule: rev_induct)
     (simp_all add: recordFailures_snoc recordFailure_fields, simp_all add: recordFailures_def)

lemma recordFailures_last:
  "ts \<noteq> [] \<Longrightarrow> lastFailureTime (recordFailures ts b) = last ts"
  by (cases ts rule: rev_cases) (simp_all add: recordFailures_snoc recordFailure_fields)

lemma recordFailures_open:
  "ts \<noteq> [] \<Longrightarrow> failureThreshold b \<le> failures b + length ts \<Longrightarrow>
   state (recordFailures ts b) = Open"
  by (cases ts rule: rev_cases)
     (simp_all add: recordFailures_snoc recordFailure_state recordFailures_fields)

text \<open>
  C1, as the claim states it, fails: nothing limits the half-open state to one trial call.
  After five failures at time 0 the default breaker is open; the first \<open>canExecute\<close> after
  the reset timeout returns true and moves to half-open; a second \<open>canExecute\<close>, with no
  success or failure recorded in between, returns true as well (and, the half-open timeout
  of 30 s being shorter than the reset timeout, closes the breaker and clears the counter).
\<close>

theorem half_open_admits_second_trial:
  "state (recordFailures [0, 0, 0, 0, 0] default_CircuitBreaker) = Open
   \<and> fst (canExecute 60001 (recordFailures [0, 0, 0, 0, 0] default_CircuitBreaker))
   \<and> state (snd (canExecute 60001 (recordFailures [0, 0, 0, 0, 0] default_CircuitBreaker)))
       = HalfOpen
   \<and> fst (canExecute 60001
         (snd (canExecute 60001 (recordFailures [0, 0, 0, 0, 0] default_CircuitBreaker))))
   \<and> state (snd (canExecute 60001
         (snd (canExecute 60001 (recordFailures [0, 0, 0, 0, 0] default_CircuitBreaker)))))
       = Closed"
  by (simp add: recordFailures_def recordFailure_def canExecute_def
      default_CircuitBreaker_def new_CircuitBreaker_def Let_def)

text \<open>
  C1, amended.  For a breaker with a positive threshold, in any state, after
  \<open>failureThreshold\<close> consecutive recorded failures (the last at time \<open>last ts\<close>) the breaker
  is open, and \<open>canExecute\<close> returns false and changes nothing as long as no more than
  \<open>resetTimeout\<close> has elapsed since that last failure.  Once more has elapsed,
  \<open>canExecute\<close> returns true and the breaker is half-open.  In that half-open state every
  further \<open>canExecute\<close> returns true (the number of trial calls is not limited), a recorded
  success closes the breaker and clears the counter, and a recorded failure opens it again.
\<close>

theorem breaker_trips_and_recovers:
  assumes thr: "0 < failureThreshold b" and len: "length ts = failureThreshold b"
  shows "state (recordFailures ts b) = Open
       \<and> (now - last ts \<le> resetTimeout b \<longrightarrow>
            canExecute now (recordFailures ts b) = (False, recordFailures ts b))
       \<and> (now - last ts > resetTimeout b \<longrightarrow>
            canExecute now (recordFailures ts b)
              = (True, (recordFailures ts b)\<lparr>state := HalfOpen\<rparr>)
          \<and> fst (canExecute now' ((recordFailures ts b)\<lparr>state := HalfOpen\<rparr>))
          \<and> state (recordSuccess ((recordFailures ts b)\<lparr>state := HalfOpen\<rparr>)) = Closed
          \<and> failures (recordSuccess ((recordFailures ts b)\<lparr>state := HalfOpen\<rparr>)) = 0
          \<and> state (recordFailure now' ((recordFailures ts b)\<lparr>state := HalfOpen\<rparr>)) = Open)"
proof -
  from thr len have ne: "ts \<noteq> []" by auto
  have op: "state (recordFailures ts b) = Open"
    using recordFailures_open [OF ne] len by simp
  have lt: "lastFailureTime (recordFailures ts b) = last ts"
    by (rule recordFailures_last [OF ne])
  have rt: "resetTimeout (recordFailures ts b) = resetTimeout b"
    by (simp add: recordFailures_fields)
  have fl: "failureThreshold (recordFailures ts b) \<le> failures (recordFailures ts b)"
    using len by (simp add: recordFailures_fields)
  show ?thesis
    using op lt rt fl
    by (simp add: canExecute_def recordSuccess_def recordFailure_state)
qed

theorem breaker_trips_and_recovers_witness:
  "0 < failureThreshold default_CircuitBreaker
   \<and> length [10, 20, 30, 40, 50 :: int] = failureThreshold default_CircuitBreaker
   \<and> state (recordFailures [10, 20, 30, 40, 50] default_CircuitBreaker) = Open
   \<and> canExecute 60050 (recordFailures [10, 20, 30, 40, 50] default_CircuitBreaker)
       = (False, recordFailures [10, 20, 30, 40, 50] default_CircuitBreaker)
   \<and> canExecute 60051 (recordFailures [10, 20, 30, 40, 50] default_CircuitBreaker)
       = (True, (recordFailures [10, 20, 30, 40, 50] default_CircuitBreaker)\<lparr>state := HalfOpen\<rparr>)
   \<and> fst (canExecute 60052
         ((recordFailures [10, 20, 30, 40, 50] default_CircuitBreaker)\<lparr>state := HalfOpen\<rparr>))
   \<and> state (recordSuccess
         ((recordFailures [10, 20, 30, 40, 50] default_CircuitBreaker)\<lparr>state := HalfOpen\<rparr>))
       = Closed
   \<and> state (recordFailure 60052
         ((recordFailures [10, 20, 30, 40, 50] default_CircuitBreaker)\<lparr>state := HalfOpen\<rparr>))
       = Open"
proof -
  have thr: "0 < failureThreshold default_CircuitBreaker"
    by (simp add: default_CircuitBreaker_def new_CircuitBreaker_def)
  have len: "length [10, 20, 30, 40, 50 :: int] = failureThreshold default_CircuitBreaker"
    by (simp add: default_CircuitBreaker_def new_CircuitBreaker_def)
  have rst: "resetTimeout default_CircuitBreaker = 60000"
    by (simp add: default_CircuitBreaker_def new_CircuitBreaker_def)
  show ?thesis
    using thr len
      breaker_trips_and_recovers [OF thr len, of 60050 60052]
      breaker_trips_and_recovers [OF thr len, of 60051 60052]
    by (simp add: rst)
qed

section \<open>Properties of the event stream\<close>

lemma closed_stream_noop:
  "isClosed s \<Longrightarrow> close s = Some s \<and> stream_write d s = Some s \<and> flush s = Some s"
  by (simp add: close_def stream_write_def flush_def)

text \<open>
  \<open>close\<close> sets \<open>isClosed\<close> before it calls \<open>flush\<close>, and \<open>flush\<close> returns at once on a
  closed stream: closing an open stream hands nothing to the transport and leaves the buffer
  as it was.
\<close>

lemma close_open_stream:
  "\<not> isClosed s \<Longrightarrow>
   close s = Some (s\<lparr>isClosed := True, flushTimer := False,
                     sse_response := (sse_response s)\<lparr>ended := True\<rparr>\<rparr>)"
  by (simp add: close_def flush_def)

text \<open>On an open stream with a positive chunk size \<open>flush\<close> does write all buffered data.\<close>

lemma collect_chunk_split:
  "\<exists>k. collect_chunk limit buf chunk n = (chunk @ take k buf, drop k buf)
       \<and> (buf \<noteq> [] \<and> int n < limit \<longrightarrow> 0 < k)"
proof (induction buf arbitrary: chunk n)
  case Nil
  then show ?case by simp
next
  case (Cons item rest)
  show ?case
  proof (cases "int n < limit")
    case True
    from Cons.IH [of "chunk @ [item]" "n + byteLength item"]
    obtain k where "collect_chunk limit rest (chunk @ [item]) (n + byteLength item)
        = ((chunk @ [item]) @ take k rest, drop k rest)" by blast
    with True have "collect_chunk limit (item # rest) chunk n
        = (chunk @ take (Suc k) (item # rest), drop (Suc k) (item # rest))" by simp
    then show ?thesis by blast
  next
    case False
    then have "collect_chunk limit (item # rest) chunk n
        = (chunk @ take 0 (item # rest), drop 0 (item # rest))" by simp
    with False show ?thesis by blast
  qed
qed

lemma drain_all:
  "0 < limit \<Longrightarrow>
   \<exists>ws. drain limit buf r = Some (r\<lparr>written := written r @ ws\<rparr>) \<and> concat ws = concat buf"
proof (induction "length buf" arbitrary: buf r rule: less_induct)
  case less
  show ?case
  proof (cases "buf = []")
    case True
    then have "drain limit buf r = Some (r\<lparr>written := written r @ []\<rparr>) \<and> concat [] = concat buf"
      by (simp add: drain.simps)
    then show ?thesis by (rule exI)
  next
    case False
    from collect_chunk_split [of limit buf "[]" 0] False less.prems
    obtain k where k: "collect_chunk limit buf [] 0 = (take k buf, drop k buf)" "0 < k"
      by auto
    let ?r = "r\<lparr>written := written r @ [concat (take k buf)]\<rparr>"
    from False k have "length (drop k buf) < length buf" by simp
    from less.hyps [OF this less.prems, of ?r]
    obtain ws where ws: "drain limit (drop k buf) ?r = Some (?r\<lparr>written := written ?r @ ws\<rparr>)"
      "concat ws = concat (drop k buf)" by blast
    have "drain limit buf r = drain limit (drop k buf) ?r"
      using False k by (subst drain.simps) simp
    with ws have "drain limit buf r = Some (r\<lparr>written := written r @ (concat (take k buf) # ws)\<rparr>)"
      by simp
    moreover have "concat (concat (take k buf) # ws) = concat buf"
      using ws(2) by (simp flip: concat_append)
    ultimately show ?thesis by blast
  qed
qed

lemma flush_writes_all:
  assumes "\<not> isClosed s" and "0 < chunkSize s"
  shows "\<exists>ws s'. flush s = Some s' \<and> buffer s' = []
            \<and> written (sse_response s') = written (sse_response s) @ ws
            \<and> concat ws = concat (buffer s)"
proof (cases "buffer s = []")
  case True
  then have "flush s = Some s \<and> buffer s = []
      \<and> written (sse_response s) = written (sse_response s) @ []
      \<and> concat [] = concat (buffer s)"
    by (simp add: flush_def)
  then show ?thesis by blast
next
  case False
  from drain_all [OF assms(2), of "buffer s" "sse_response s"]
  obtain ws where "drain (chunkSize s) (buffer s) (sse_response s)
      = Some ((sse_response s)\<lparr>written := written (sse_response s) @ ws\<rparr>)"
    "concat ws = concat (buffer s)" by blast
  with False assms(1) show ?thesis by (simp add: flush_def)
qed

text \<open>
  C9.  The claim's final flush does not happen.  At a fresh stream, one event below the
  high-water mark is written and the stream is closed: the transport has received nothing
  when it is ended, and the event is still in the buffer.
\<close>

theorem close_drops_buffered_data:
  "Option.bind
     (stream_write ''data: x'' (new_OptimizedSSEStream \<lparr>written = [], ended = False\<rparr>))
     close
   = Some \<lparr>sse_response = \<lparr>written = [], ended = True\<rparr>, buffer = [''data: x''],
           bufferSize = 7, flushTimer = False, highWaterMark = 16384, chunkSize = 8192,
           flushInterval = 100, isClosed = True\<rparr>"
  by (simp add: stream_write_def close_def flush_def new_OptimizedSSEStream_def byteLength_def)

section \<open>Properties of the cache\<close>

lemma cache_get_expired:
  "map_of (cache c) key = Some e \<Longrightarrow> now > expiresAt e \<Longrightarrow>
   cache_get key now c = (None, c\<lparr>cache := AList.delete key (cache c)\<rparr>)"
  by (simp add: cache_get_def)


text \<open>
  For a cache whose keys are all non-empty, \<open>cache_set\<close> at capacity does what C8 says:
  the expired entries go first; if the cache is still at capacity, the first entry with the
  smallest \<open>lastAccessed\<close> is removed as well; then the new entry is stored.
\<close>

lemma lru_scan_snoc: "lru_scan (es @ [x]) = lru_step x (lru_scan es)"
  by (simp add: lru_scan_def)

lemma lru_scan_oldest:
  "es \<noteq> [] \<Longrightarrow>
   \<exists>pre k e post. es = pre @ (k, e) # post
     \<and> lru_scan es = (Some k, Some (lastAccessed e))
     \<and> (\<forall>x\<in>set pre. lastAccessed e < lastAccessed (snd x))
     \<and> (\<forall>x\<in>set post. lastAccessed e \<le> lastAccessed (snd x))"
proof (induction es rule: rev_induct)
  case Nil
  then show ?case by simp
next
  case (snoc x es)
  show ?case
  proof (cases "es = []")
    case True
    then have "es @ [x] = [] @ (fst x, snd x) # []
        \<and> lru_scan (es @ [x]) = (Some (fst x), Some (lastAccessed (snd x)))
        \<and> (\<forall>y\<in>set []. lastAccessed (snd x) < lastAccessed (snd y))
        \<and> (\<forall>y\<in>set []. lastAccessed (snd x) \<le> lastAccessed (snd y))"
      by (simp add: lru_scan_def lru_step_def)
    then show ?thesis by (intro exI)
  next
    case False
    from snoc.IH [OF False] obtain pre k e post where
      es: "es = pre @ (k, e) # post" and
      sc: "lru_scan es = (Some k, Some (lastAccessed e))" and
      pre: "\<forall>x\<in>set pre. lastAccessed e < lastAccessed (snd x)" and
      post: "\<forall>x\<in>set post. lastAccessed e \<le> lastAccessed (snd x)" by blast
    show ?thesis
    proof (cases "lastAccessed (snd x) < lastAccessed e")
      case True
      have "es @ [x] = es @ (fst x, snd x) # []" by simp
      moreover have "lru_scan (es @ [x]) = (Some (fst x), Some (lastAccessed (snd x)))"
        using True sc by (simp add: lru_scan_snoc lru_step_def)
      moreover have "\<forall>y\<in>set es. lastAccessed (snd x) < lastAccessed (snd y)"
        using True es pre post by auto
      moreover have "\<forall>y\<in>set []. lastAccessed (snd x) \<le> lastAccessed (snd y)" by simp
      ultimately have "es @ [x] = es @ (fst x, snd x) # []
        \<and> lru_scan (es @ [x]) = (Some (fst x), Some (lastAccessed (snd x)))
        \<and> (\<forall>y\<in>set es. lastAccessed (snd x) < lastAccessed (snd y))
        \<and> (\<forall>y\<in>set []. lastAccessed (snd x) \<le> lastAccessed (snd y))" by blast
      then show ?thesis by (intro exI)
    next
      case False
      have "es @ [x] = pre @ (k, e) # (post @ [x])" using es by simp
      moreover have "lru_scan (es @ [x]) = (Some k, Some (lastAccessed e))"
        using False sc by (simp add: lru_scan_snoc lru_step_def)
      moreover have "\<forall>y\<in>set (post @ [x]). lastAccessed e \<le> lastAccessed (snd y)"
        using False post by auto
      ultimately have "es @ [x] = pre @ (k, e) # (post @ [x])
        \<and> lru_scan (es @ [x]) = (Some k, Some (lastAccessed e))
        \<and> (\<forall>y\<in>set pre. lastAccessed e < lastAccessed (snd y))
        \<and> (\<forall>y\<in>set (post @ [x]). lastAccessed e \<le> lastAccessed (snd y))" using pre by blast
      then show ?thesis by (intro exI)
    qed
  qed
qed

lemma cache_set_below_capacity:
  "int (length (cache c)) < maxSize c \<Longrightarrow>
   cache (cache_set key v None now c)
     = AList.update key \<lparr>val = v, expiresAt = now + ttl c, lastAccessed = now\<rparr> (cache c)"
  by (simp add: cache_set_def)

lemma cache_set_at_capacity:
  assumes full: "int (length (cache c)) \<ge> maxSize c"
    and keys: "\<forall>k\<in>fst ` set (cache c). k \<noteq> []"
  shows "let live = filter (\<lambda>(k, e). \<not> now > expiresAt e) (cache c);
             entry = \<lparr>val = v, expiresAt = now + ttl c, lastAccessed = now\<rparr>
         in (int (length live) < maxSize c \<longrightarrow>
               cache (cache_set key v None now c) = AList.update key entry live)
          \<and> (int (length live) \<ge> maxSize c \<and> live \<noteq> [] \<longrightarrow>
               (\<exists>pre k e post. live = pre @ (k, e) # post
                  \<and> (\<forall>x\<in>set pre. lastAccessed e < lastAccessed (snd x))
                  \<and> (\<forall>x\<in>set post. lastAccessed e \<le> lastAccessed (snd x))
                  \<and> cache (cache_set key v None now c)
                      = AList.update key entry (AList.delete k live)))"
proof -
  define live where "live = filter (\<lambda>(k, e). \<not> now > expiresAt e) (cache c)"
  define entry where "entry = \<lparr>val = v, expiresAt = now + ttl c, lastAccessed = now\<rparr>"
  have c2: "cache (evictExpired now c) = live" "maxSize (evictExpired now c) = maxSize c"
    "ttl (evictExpired now c) = ttl c"
    by (simp_all add: evictExpired_def live_def)
  have a: "int (length live) < maxSize c \<Longrightarrow>
      cache (cache_set key v None now c) = AList.update key entry live"
    using full c2 by (simp add: cache_set_def Let_def entry_def)
  have b: "\<exists>pre k e post. live = pre @ (k, e) # post
                  \<and> (\<forall>x\<in>set pre. lastAccessed e < lastAccessed (snd x))
                  \<and> (\<forall>x\<in>set post. lastAccessed e \<le> lastAccessed (snd x))
                  \<and> cache (cache_set key v None now c)
                      = AList.update key entry (AList.delete k live)"
    if still: "int (length live) \<ge> maxSize c" and ne: "live \<noteq> []"
  proof -
    from lru_scan_oldest [OF ne] obtain pre k e post where
      es: "live = pre @ (k, e) # post" and
      sc: "lru_scan live = (Some k, Some (lastAccessed e))" and
      pre: "\<forall>x\<in>set pre. lastAccessed e < lastAccessed (snd x)" and
      post: "\<forall>x\<in>set post. lastAccessed e \<le> lastAccessed (snd x)" by blast
    from es have "k \<in> fst ` set live" by force
    then have "k \<in> fst ` set (cache c)" by (auto simp: live_def)
    with keys have "k \<noteq> []" by blast
    then have "cache (evictLRU (evictExpired now c)) = AList.delete k live"
      using sc c2 by (simp add: evictLRU_def)
    moreover have "ttl (evictLRU (evictExpired now c)) = ttl c"
      using c2 by (simp add: evictLRU_def split: option.splits)
    ultimately have "cache (cache_set key v None now c) = AList.update key entry (AList.delete k live)"
      using full still c2 by (simp add: cache_set_def Let_def entry_def)
    with es pre post show ?thesis by blast
  qed
  from a b show ?thesis unfolding Let_def live_def [symmetric] entry_def [symmetric] by blast
qed

section \<open>Properties of the cache and request keys\<close>


text \<open>Equal prefixes are all it takes.\<close>

lemma response_key_prefix:
  "take 200 (json_messages ms1) = take 200 (json_messages ms2) \<Longrightarrow>
   getResponseCacheKey m ms1 = getResponseCacheKey m ms2"
  by (simp add: getResponseCacheKey_def)

lemma request_key_prefix:
  "b1 \<noteq> [] \<Longrightarrow> b2 \<noteq> [] \<Longrightarrow> take 100 b1 = take 100 b2 \<Longrightarrow>
   getRequestKey url (Some b1) method = getRequestKey url (Some b2) method"
  by (simp add: getRequestKey_def)

section \<open>Properties of the retry wrapper\<close>

lemma on_breaker_fields [simp]:
  "clock (on_breaker key f w) = clock w"
  "sleeps (on_breaker key f w) = sleeps w"
  "attempts (on_breaker key f w) = attempts w"
  by (simp_all add: on_breaker_def)


lemma sleep_fields [simp]:
  "sleeps (sleep ms w) = sleeps w @ [ms]"
  "attempts (sleep ms w) = attempts w"
  "circuitBreakers (sleep ms w) = circuitBreakers w"
  by (simp_all add: sleep_def)





lemma getCircuitBreaker_fields [simp]:
  "clock (snd (getCircuitBreaker key w)) = clock w"
  "sleeps (snd (getCircuitBreaker key w)) = sleeps w"
  "attempts (snd (getCircuitBreaker key w)) = attempts w"
  by (simp_all add: getCircuitBreaker_def split: option.splits)


lemma getCircuitBreaker_others:
  "k \<noteq> key \<Longrightarrow>
   map_of (circuitBreakers (snd (getCircuitBreaker key w))) k = map_of (circuitBreakers w) k"
  by (simp add: getCircuitBreaker_def update_conv' split: option.splits)





section \<open>Properties of the council\<close>

lemma queryModel_uncached_simps [simp]:
  "fst (queryModel_uncached net m msgs calls) = net (length calls) m msgs"
  "snd (queryModel_uncached net m msgs calls) = calls @ [(m, msgs)]"
  by (simp_all add: queryModel_uncached_def)





lemma query_all_fst:
  "fst (query_all net models msgs calls)
     = map (\<lambda>i. net (length calls + i) (models ! i) msgs) [0..<length models]"
proof (induction models arbitrary: calls)
  case Nil
  then show ?case by simp
next
  case (Cons m models)
  have "map (\<lambda>i. net (length calls + i) ((m # models) ! i) msgs) [0..<length (m # models)]
      = net (length calls) m msgs
        # map (\<lambda>i. net (length (calls @ [(m, msgs)]) + i) (models ! i) msgs) [0..<length models]"
    by (simp add: upt_conv_Cons map_Suc_upt [symmetric] del: upt_Suc)
  with Cons.IH [of "calls @ [(m, msgs)]"] show ?case by simp
qed

lemma query_all_snd:
  "snd (query_all net models msgs calls) = calls @ map (\<lambda>m. (m, msgs)) models"
  by (induction models arbitrary: calls) simp_all

lemma fold_slots_length:
  "length (fold (\<lambda>i vs. vs[i := Some (tasks ! i)]) cs vs) = length vs"
  by (induction cs arbitrary: vs) simp_all

lemma fold_slots_nth:
  "i < length vs \<Longrightarrow>
   fold (\<lambda>i vs. vs[i := Some (tasks ! i)]) cs vs ! i
     = (if i \<in> set cs then Some (tasks ! i) else vs ! i)"
proof (induction cs arbitrary: vs)
  case Nil
  then show ?case by simp
next
  case (Cons c cs)
  from Cons.prems have "i < length (vs[c := Some (tasks ! c)])" by simp
  from Cons.IH [OF this] Cons.prems show ?case
    by (auto simp: nth_list_update)
qed

lemma promise_all_settled:
  assumes "{..<length tasks} \<subseteq> set completion"
  shows "promise_all tasks completion = Some tasks"
proof -
  let ?cs = "filter (\<lambda>i. i < length tasks) completion"
  let ?slots = "fold (\<lambda>i vs. vs[i := Some (tasks ! i)]) ?cs (replicate (length tasks) None)"
  have len: "length ?slots = length tasks" by (simp add: fold_slots_length)
  have nth: "?slots ! i = Some (tasks ! i)" if "i < length tasks" for i
  proof -
    from that assms have "i \<in> set ?cs" by auto
    with that show ?thesis by (simp add: fold_slots_nth)
  qed
  have "?slots = map Some tasks"
    using len nth by (intro nth_equalityI) simp_all
  then show ?thesis by (simp add: promise_all_def Let_def list_all_iff comp_def)
qed

lemma promise_all_pending:
  assumes "\<not> {..<length tasks} \<subseteq> set completion"
  shows "promise_all tasks completion = None"
proof -
  let ?cs = "filter (\<lambda>i. i < length tasks) completion"
  let ?slots = "fold (\<lambda>i vs. vs[i := Some (tasks ! i)]) ?cs (replicate (length tasks) None)"
  from assms obtain i where i: "i < length tasks" "i \<notin> set completion" by auto
  then have "?slots ! i = None" by (simp add: fold_slots_nth)
  moreover have "i < length ?slots" using i by (simp add: fold_slots_length)
  ultimately have "None \<in> set ?slots" by (metis nth_mem)
  then show ?thesis by (auto simp: promise_all_def Let_def list_all_iff)
qed

lemma update_absent:
  "k \<notin> fst ` set al \<Longrightarrow> AList.update k v al = al @ [(k, v)]"
  by (induction al) auto

lemma build_object_distinct:
  assumes "distinct models" and "''__proto__'' \<notin> set models" and "k \<le> length models"
    and "length rs = length models"
  shows "fold (\<lambda>i result. obj_assign (models ! i) (rs ! i) result) [0..<k] []
     = zip (take k models) (take k rs)"
  using assms(3)
proof (induction k)
  case 0
  then show ?case by simp
next
  case (Suc k)
  then have k: "k < length models" by simp
  have absent: "models ! k \<notin> fst ` set (zip (take k models) (take k rs))"
  proof
    assume "models ! k \<in> fst ` set (zip (take k models) (take k rs))"
    then have "models ! k \<in> set (take k models)" by (auto dest: set_zip_leftD)
    then obtain j where "j < k" "models ! j = models ! k"
      using k by (auto simp: in_set_conv_nth)
    with assms(1) k show False by (simp add: nth_eq_iff_index_eq)
  qed
  have np: "models ! k \<noteq> ''__proto__''" using assms(2) k by (metis nth_mem)
  have "fold (\<lambda>i result. obj_assign (models ! i) (rs ! i) result) [0..<Suc k] []
      = obj_assign (models ! k) (rs ! k) (zip (take k models) (take k rs))"
    using Suc by simp
  also have "\<dots> = zip (take k models) (take k rs) @ [(models ! k, rs ! k)]"
    using np absent by (simp add: obj_assign_def update_absent)
  also have "\<dots> = zip (take (Suc k) models) (take (Suc k) rs)"
    using k assms(4) by (simp add: take_Suc_conv_app_nth)
  finally show ?case .
qed

lemma Object_entries_plain:
  "\<forall>p\<in>set obj. \<not> is_array_index (fst p) \<Longrightarrow> Object_entries obj = obj"
proof -
  assume a: "\<forall>p\<in>set obj. \<not> is_array_index (fst p)"
  then have "filter (\<lambda>p. is_array_index (fst p)) obj = []" by (simp add: filter_empty_conv)
  moreover from a have "filter (\<lambda>p. \<not> is_array_index (fst p)) obj = obj" by (simp add: filter_id_conv)
  ultimately show ?thesis by (simp add: Object_entries_def)
qed


lemma queryModelsParallel_settled:
  assumes "{..<length models} \<subseteq> set completion"
  shows "queryModelsParallel net models msgs completion calls
     = Some (fold (\<lambda>i result. obj_assign (models ! i)
                     (net (length calls + i) (models ! i) msgs) result) [0..<length models] [],
             calls @ map (\<lambda>m. (m, msgs)) models)"
proof -
  let ?rs = "fst (query_all net models msgs calls)"
  have len: "length ?rs = length models" by (simp add: query_all_fst)
  with assms have "promise_all ?rs completion = Some ?rs" by (simp add: promise_all_settled)
  moreover have "fold (\<lambda>i result. obj_assign (models ! i) (?rs ! i) result) [0..<length models] []
      = fold (\<lambda>i result. obj_assign (models ! i)
                     (net (length calls + i) (models ! i) msgs) result) [0..<length models] []"
    by (rule fold_cong) (simp_all add: query_all_fst)
  ultimately show ?thesis by (simp add: queryModelsParallel_def query_all_snd)
qed

lemma queryModelsParallel_plain:
  assumes "distinct models" and "''__proto__'' \<notin> set models"
    and "{..<length models} \<subseteq> set completion"
  shows "queryModelsParallel net models msgs completion calls
     = Some (map (\<lambda>i. (models ! i, net (length calls + i) (models ! i) msgs)) [0..<length models],
             calls @ map (\<lambda>m. (m, msgs)) models)"
proof -
  let ?rs = "map (\<lambda>i. net (length calls + i) (models ! i) msgs) [0..<length models]"
  have "fold (\<lambda>i result. obj_assign (models ! i)
                     (net (length calls + i) (models ! i) msgs) result) [0..<length models] []
      = fold (\<lambda>i result. obj_assign (models ! i) (?rs ! i) result) [0..<length models] []"
    by (rule fold_cong) simp_all
  also have "\<dots> = zip (take (length models) models) (take (length models) ?rs)"
    using assms(1,2) by (intro build_object_distinct) simp_all
  also have "\<dots> = map (\<lambda>i. (models ! i, net (length calls + i) (models ! i) msgs)) [0..<length models]"
    by (intro nth_equalityI) simp_all
  finally show ?thesis using queryModelsParallel_settled [OF assms(3)] by simp
qed

text \<open>
  C4, amended.  Let the configured models be pairwise distinct, none of them an array index
  and none \<^verbatim>\<open>__proto__\<close>, and let every call settle, in any order.  Then stage 1 returns
  one answer for each model whose call did not return null, in the order of the
  configuration, whatever the order of completion; if all \<open>N\<close> calls succeed these are
  exactly \<open>N\<close> answers, model by model the configured list.
\<close>

theorem stage1_configuration_order:
  assumes "distinct models"
    and "\<forall>m\<in>set models. \<not> is_array_index m \<and> m \<noteq> ''__proto__''"
    and "{..<length models} \<subseteq> set completion"
  shows "stage1CollectResponses net models q completion calls
       = Some (map (\<lambda>i. \<lparr>model = models ! i,
                           response = content_or_empty
                             (the (net (length calls + i) (models ! i)
                                     [\<lparr>role = User, content = q\<rparr>]))\<rparr>)
                 (filter (\<lambda>i. net (length calls + i) (models ! i)
                                [\<lparr>role = User, content = q\<rparr>] \<noteq> None)
                    [0..<length models]),
               calls @ map (\<lambda>m. (m, [\<lparr>role = User, content = q\<rparr>])) models)
     \<and> ((\<forall>i<length models.
            net (length calls + i) (models ! i) [\<lparr>role = User, content = q\<rparr>] \<noteq> None) \<longrightarrow>
          (\<exists>rs. stage1CollectResponses net models q completion calls
                  = Some (rs, calls @ map (\<lambda>m. (m, [\<lparr>role = User, content = q\<rparr>])) models)
             \<and> length rs = length models \<and> map model rs = models))"
proof -
  let ?msgs = "[\<lparr>role = User, content = q\<rparr>]"
  let ?ans = "\<lambda>i. net (length calls + i) (models ! i) ?msgs"
  let ?obj = "map (\<lambda>i. (models ! i, ?ans i)) [0..<length models]"
  let ?out = "map (\<lambda>i. \<lparr>model = models ! i, response = content_or_empty (the (?ans i))\<rparr>)
                 (filter (\<lambda>i. ?ans i \<noteq> None) [0..<length models])"
  from assms(2) have np: "''__proto__'' \<notin> set models" by blast
  have par: "queryModelsParallel net models ?msgs completion calls
      = Some (?obj, calls @ map (\<lambda>m. (m, ?msgs)) models)"
    by (rule queryModelsParallel_plain [OF assms(1) np assms(3)])
  have "\<forall>p\<in>set ?obj. \<not> is_array_index (fst p)" using assms(2) by auto
  then have ent: "Object_entries ?obj = ?obj" by (rule Object_entries_plain)
  have "map (\<lambda>p. \<lparr>model = fst p, response = content_or_empty (the (snd p))\<rparr>)
          (filter (\<lambda>p. snd p \<noteq> None) ?obj) = ?out"
    by (simp add: filter_map comp_def)
  with par ent have eq: "stage1CollectResponses net models q completion calls
      = Some (?out, calls @ map (\<lambda>m. (m, ?msgs)) models)"
    by (simp add: stage1CollectResponses_def)
  have "length ?out = length models \<and> map model ?out = models"
    if "\<forall>i<length models. ?ans i \<noteq> None"
  proof -
    from that have "filter (\<lambda>i. ?ans i \<noteq> None) [0..<length models] = [0..<length models]"
      by (simp add: filter_id_conv)
    then show ?thesis by (simp add: comp_def map_nth)
  qed
  with eq show ?thesis by blast
qed

text \<open>
  C4, as the claim states it, fails when a model is configured twice: the responses are
  collected in an object keyed by model, which keeps one entry per name.  With the
  configuration \<open>a, a\<close> both calls succeed and stage 1 returns one answer.
\<close>

theorem stage1_duplicate_models_collapse:
  "map_option (\<lambda>p. map model (fst p))
     (stage1CollectResponses
        (\<lambda>k m ms. Some \<lparr>response_content = Some ''4'', reasoning_details = None\<rparr>)
        [''a'', ''a''] ''q'' [0, 1] [])
   = Some [''a'']"
  by (simp add: stage1CollectResponses_def queryModelsParallel_def promise_all_def
      queryModel_uncached_def obj_assign_def Object_entries_def is_array_index_def
      is_digit_def upt_rec)

theorem stage1_configuration_order_witness:
  "distinct [''x/a'', ''y/b'', ''z/c'']
   \<and> map_option (\<lambda>p. map model (fst p))
       (stage1CollectResponses
          (\<lambda>k m ms. if m = ''y/b'' then None
                     else Some \<lparr>response_content = Some m, reasoning_details = None\<rparr>)
          [''x/a'', ''y/b'', ''z/c''] ''q'' [2, 0, 1] [])
     = Some [''x/a'', ''z/c'']
   \<and> map_option (\<lambda>p. map model (fst p))
       (stage1CollectResponses
          (\<lambda>k m ms. Some \<lparr>response_content = Some m, reasoning_details = None\<rparr>)
          [''x/a'', ''y/b'', ''z/c''] ''q'' [2, 0, 1] [])
     = Some [''x/a'', ''y/b'', ''z/c'']"
proof -
  let ?ms = "[''x/a'', ''y/b'', ''z/c'']"
  have d: "distinct ?ms" by simp
  have p: "\<forall>m\<in>set ?ms. \<not> is_array_index m \<and> m \<noteq> ''__proto__''"
    by (simp add: is_array_index_def is_digit_def)
  have c: "{..<length ?ms} \<subseteq> set [2, 0, 1::nat]" by auto
  have u: "[0..<3] = [0, 1, 2::nat]" by (simp add: upt_rec)
  show ?thesis
    using d stage1_configuration_order [OF d p c, where calls = "[]" and q = "''q''" and net =
        "\<lambda>k m ms. if m = ''y/b'' then None
                   else Some \<lparr>response_content = Some m, reasoning_details = None\<rparr>"]
      stage1_configuration_order [OF d p c, where calls = "[]" and q = "''q''" and net =
        "\<lambda>k m ms. Some \<lparr>response_content = Some m, reasoning_details = None\<rparr>"]
    by (simp add: u)
qed



















section \<open>Properties of the aggregation\<close>





lemma set_first_seen [simp]: "set (first_seen xs) = set xs"
  by (simp add: first_seen_def)

lemma distinct_first_seen [simp]: "distinct (first_seen xs)"
  by (simp add: first_seen_def)



















section \<open>Properties of the ranking parser\<close>

lemma js_includes_iff:
  "js_includes s sep \<longleftrightarrow> (\<exists>a b. s = a @ sep @ b)"
proof (induction s)
  case Nil
  then show ?case by auto
next
  case (Cons c cs)
  show ?case
  proof
    assume "js_includes (c # cs) sep"
    then consider "prefix sep (c # cs)" | "js_includes cs sep" by auto
    then show "\<exists>a b. c # cs = a @ sep @ b"
    proof cases
      case 1
      then obtain b where "c # cs = sep @ b" by (auto simp: prefix_def)
      then have "c # cs = [] @ sep @ b" by simp
      then show ?thesis by blast
    next
      case 2
      with Cons.IH obtain a b where "cs = a @ sep @ b" by blast
      then have "c # cs = (c # a) @ sep @ b" by simp
      then show ?thesis by blast
    qed
  next
    assume "\<exists>a b. c # cs = a @ sep @ b"
    then obtain a b where ab: "c # cs = a @ sep @ b" by blast
    show "js_includes (c # cs) sep"
    proof (cases a)
      case Nil
      with ab have "prefix sep (c # cs)" by (simp add: prefix_def)
      then show ?thesis by simp
    next
      case (Cons x a')
      with ab have "cs = a' @ sep @ b" by simp
      with Cons.IH have "js_includes cs sep" by blast
      then show ?thesis by simp
    qed
  qed
qed

lemma js_split_from_none:
  "\<not> js_includes s sep \<Longrightarrow> js_split_from sep part s = [part @ s]"
  by (induction s arbitrary: part) auto

lemma prefix_of_longer:
  "prefix xs (ys @ zs) \<Longrightarrow> length xs \<le> length ys \<Longrightarrow> prefix xs ys"
  by (metis prefix_length_prefix prefixI prefix_order.dual_order.refl)

lemma js_split_from_first:
  assumes "sep \<noteq> []" and "\<not> js_includes (pre @ butlast sep) sep"
  shows "js_split_from sep part (pre @ sep @ rest) = (part @ pre) # js_split_from sep [] rest"
  using assms(2)
proof (induction pre arbitrary: part)
  case Nil
  from assms(1) obtain c cs where sep: "sep = c # cs" by (cases sep) auto
  then have "js_split_from sep part (sep @ rest)
      = part # js_split_from sep [] (drop (length sep) (sep @ rest))"
    by simp
  then show ?case by simp
next
  case (Cons p pre)
  have np: "\<not> prefix sep ((p # pre) @ sep @ rest)"
  proof
    assume "prefix sep ((p # pre) @ sep @ rest)"
    moreover have "(p # pre) @ sep @ rest = ((p # pre) @ butlast sep) @ (last sep # rest)"
      using assms(1) by simp
    moreover have "length sep \<le> length ((p # pre) @ butlast sep)" by simp
    ultimately have "prefix sep ((p # pre) @ butlast sep)"
      by (metis prefix_of_longer)
    with Cons.prems show False by simp
  qed
  from Cons.prems have "\<not> js_includes (pre @ butlast sep) sep" by simp
  from Cons.IH [OF this, of "part @ [p]"] np show ?case by simp
qed

lemma js_split_once:
  assumes "sep \<noteq> []" and "\<not> js_includes (pre @ butlast sep) sep" and "\<not> js_includes sec sep"
  shows "js_split (pre @ sep @ sec) sep = [pre, sec]"
  using js_split_from_first [OF assms(1,2), of "[]" sec] js_split_from_none [OF assms(3), of "[]"]
  by (simp add: js_split_def)

text \<open>Every part of a split is a piece of the text.\<close>

lemma js_split_from_parts:
  "x \<in> set (js_split_from sep part s) \<Longrightarrow> \<exists>a b. part @ s = a @ x @ b"
proof (induction sep part s rule: js_split_from.induct)
  case (1 sep part)
  then have "part @ [] = [] @ x @ []" by simp
  then show ?case by blast
next
  case (2 sep part c cs)
  show ?case
  proof (cases "sep \<noteq> [] \<and> prefix sep (c # cs)")
    case True
    with 2(3) have "x = part \<or> x \<in> set (js_split_from sep [] (drop (length sep) (c # cs)))"
      by simp
    then show ?thesis
    proof
      assume "x = part"
      then have "part @ c # cs = [] @ x @ (c # cs)" by simp
      then show ?thesis by blast
    next
      assume "x \<in> set (js_split_from sep [] (drop (length sep) (c # cs)))"
      from 2(1) [OF True this] obtain a b where "drop (length sep) (c # cs) = a @ x @ b" by auto
      moreover have "c # cs = take (length sep) (c # cs) @ drop (length sep) (c # cs)" by simp
      ultimately have "part @ c # cs = (part @ take (length sep) (c # cs) @ a) @ x @ b"
        by (metis append.assoc)
      then show ?thesis by blast
    qed
  next
    case False
    with 2(3) have "x \<in> set (js_split_from sep (part @ [c]) cs)" by auto
    from 2(2) [OF False this] show ?thesis by simp
  qed
qed

lemma match_label_iff:
  "match_label s = Some n \<longleftrightarrow> n = 10 \<and> (\<exists>c b. s = ''Response '' @ c # b \<and> is_upper c)"
proof
  assume a: "match_label s = Some n"
  then have p: "prefix ''Response '' s" and n: "n = 10"
    and u: "(case drop 9 s of [] \<Rightarrow> False | c # _ \<Rightarrow> is_upper c)"
    by (auto simp: match_label_def split: if_splits)
  from p obtain r where r: "s = ''Response '' @ r" by (auto simp: prefix_def)
  with u obtain c b where "r = c # b" "is_upper c" by (cases r) auto
  with r n show "n = 10 \<and> (\<exists>c b. s = ''Response '' @ c # b \<and> is_upper c)" by blast
next
  assume "n = 10 \<and> (\<exists>c b. s = ''Response '' @ c # b \<and> is_upper c)"
  then obtain c b where "n = 10" "s = ''Response '' @ c # b" "is_upper c" by blast
  then show "match_label s = Some n" by (simp add: match_label_def)
qed

lemma match_label_None_iff:
  "match_label s = None \<longleftrightarrow> \<not> (\<exists>c b. s = ''Response '' @ c # b \<and> is_upper c)"
  using match_label_iff [of s 10] by (cases "match_label s") (auto simp: match_label_iff)

text \<open>The label scan finds something exactly when a label occurs in the text.\<close>

lemma labels_found_iff:
  "match_all match_label s \<noteq> [] \<longleftrightarrow> (\<exists>a c b. s = a @ ''Response '' @ c # b \<and> is_upper c)"
proof (induction s)
  case Nil
  then show ?case by simp
next
  case (Cons x xs)
  show ?case
  proof (cases "match_label (x # xs)")
    case (Some n)
    then have "n = 10" and "\<exists>c b. x # xs = ''Response '' @ c # b \<and> is_upper c"
      by (simp_all add: match_label_iff)
    then obtain c b where "x # xs = [] @ ''Response '' @ c # b \<and> is_upper c" by auto
    then have "\<exists>a c b. x # xs = a @ ''Response '' @ c # b \<and> is_upper c" by blast
    moreover from Some \<open>n = 10\<close> have "match_all match_label (x # xs) \<noteq> []" by simp
    ultimately show ?thesis by blast
  next
    case None
    then have m: "match_all match_label (x # xs) = match_all match_label xs" by simp
    have "(\<exists>a c b. x # xs = a @ ''Response '' @ c # b \<and> is_upper c)
        \<longleftrightarrow> (\<exists>a c b. xs = a @ ''Response '' @ c # b \<and> is_upper c)"
    proof
      assume "\<exists>a c b. x # xs = a @ ''Response '' @ c # b \<and> is_upper c"
      then obtain a c b where acb: "x # xs = a @ ''Response '' @ c # b" "is_upper c" by blast
      show "\<exists>a c b. xs = a @ ''Response '' @ c # b \<and> is_upper c"
      proof (cases a)
        case Nil
        with acb have "\<exists>c b. x # xs = ''Response '' @ c # b \<and> is_upper c" by auto
        moreover from None have "\<not> (\<exists>c b. x # xs = ''Response '' @ c # b \<and> is_upper c)"
          by (rule iffD1 [OF match_label_None_iff])
        ultimately show ?thesis by blast
      next
        case (Cons y a')
        with acb have "xs = a' @ ''Response '' @ c # b" by simp
        with acb(2) show ?thesis by blast
      qed
    next
      assume "\<exists>a c b. xs = a @ ''Response '' @ c # b \<and> is_upper c"
      then obtain a c b where "xs = a @ ''Response '' @ c # b" "is_upper c" by blast
      then have "x # xs = (x # a) @ ''Response '' @ c # b \<and> is_upper c" by simp
      then show "\<exists>a c b. x # xs = a @ ''Response '' @ c # b \<and> is_upper c" by blast
    qed
    with m Cons.IH show ?thesis by simp
  qed
qed

text \<open>What the scans return: labels, and numbered entries that end in a label.\<close>

lemma match_all_elems:
  "(\<And>s n. m s = Some n \<Longrightarrow> 0 < n \<and> P (take n s)) \<Longrightarrow>
   l \<in> set (match_all m s) \<Longrightarrow> P l"
proof (induction m s rule: match_all.induct)
  case (1 m)
  then show ?case by simp
next
  case (2 m c cs)
  show ?case
  proof (cases "m (c # cs)")
    case None
    with 2 show ?thesis by simp
  next
    case (Some n)
    from "2.prems"(1) [OF Some] have n: "0 < n" and p: "P (take n (c # cs))" by simp_all
    from "2.prems"(2) Some n
    have "l = take n (c # cs) \<or> l \<in> set (match_all m (drop n (c # cs)))" by simp
    then show ?thesis
    proof
      assume "l = take n (c # cs)"
      with p show ?thesis by simp
    next
      assume "l \<in> set (match_all m (drop n (c # cs)))"
      with "2.IH"(3) [OF Some _ "2.prems"(1)] n show ?thesis by simp
    qed
  qed
qed

lemma match_all_label_shape:
  assumes "l \<in> set (match_all match_label s)"
  shows "\<exists>c. l = ''Response '' @ [c] \<and> is_upper c"
proof (rule match_all_elems [OF _ assms])
  fix t n
  assume "match_label t = Some n"
  then obtain c b where "n = 10" "t = ''Response '' @ c # b" "is_upper c"
    by (auto simp: match_label_iff)
  then have "0 < n \<and> take n t = ''Response '' @ [c] \<and> is_upper c" by simp
  then show "0 < n \<and> (\<exists>c. take n t = ''Response '' @ [c] \<and> is_upper c)" by blast
qed

lemma match_numbered_shape:
  assumes "match_numbered s = Some n"
  shows "\<exists>ds ws c b. s = ds @ ''.'' @ ws @ ''Response '' @ c # b
       \<and> ds \<noteq> [] \<and> (\<forall>d\<in>set ds. is_digit d) \<and> (\<forall>w\<in>set ws. is_space w) \<and> is_upper c
       \<and> n = length ds + 1 + length ws + 10"
proof -
  let ?ds = "takeWhile is_digit s"
  from assms have ds: "?ds \<noteq> []" by (auto simp: match_numbered_def split: if_splits)
  from assms ds obtain x r where r: "dropWhile is_digit s = x # r"
    by (cases "dropWhile is_digit s") (auto simp: match_numbered_def)
  with assms ds have x: "x = CHR ''.''"
    by (auto simp: match_numbered_def split: if_splits)
  let ?ws = "takeWhile is_space r"
  from assms ds r x obtain k where k: "match_label (dropWhile is_space r) = Some k"
    and n: "n = length ?ds + 1 + length ?ws + k"
    by (cases "match_label (dropWhile is_space r)") (auto simp: match_numbered_def)
  from k obtain c b where cb: "k = 10" "dropWhile is_space r = ''Response '' @ c # b" "is_upper c"
    by (auto simp: match_label_iff)
  have "s = ?ds @ dropWhile is_digit s" by simp
  also have "dropWhile is_digit s = ''.'' @ r" using r x by simp
  also have "r = ?ws @ dropWhile is_space r" by simp
  finally have "s = ?ds @ ''.'' @ ?ws @ ''Response '' @ c # b" using cb(2) by simp
  moreover have "\<forall>d\<in>set ?ds. is_digit d" by (auto dest: set_takeWhileD)
  moreover have "\<forall>w\<in>set ?ws. is_space w" by (auto dest: set_takeWhileD)
  ultimately show ?thesis using ds cb n by blast
qed

lemma not_R [simp]: "\<not> is_digit (CHR ''R'')" "\<not> is_space (CHR ''R'')"
  by (simp_all add: is_digit_def is_space_def)

lemma match_label_head: "x \<noteq> CHR ''R'' \<Longrightarrow> match_label (x # t) = None"
  by (simp add: match_label_def)

lemma js_match_skip:
  "\<forall>x\<in>set xs. x \<noteq> CHR ''R'' \<Longrightarrow> js_match match_label (xs @ t) = js_match match_label t"
  by (induction xs) (simp_all add: match_label_head)

lemma js_match_label:
  "is_upper c \<Longrightarrow> js_match match_label (''Response '' @ [c]) = Some (''Response '' @ [c])"
  by (simp add: match_label_def)

text \<open>A numbered entry ends in its label, and that label is the first one found in it.\<close>

lemma take_whole: "take (length xs) (xs @ ys) = xs"
  by simp

lemma drop_to_suffix: "drop (length (xs @ ys) - length ys) (xs @ ys) = ys"
  by simp

lemma numbered_entry_label:
  assumes "ds \<noteq> []" "\<forall>d\<in>set ds. is_digit d" "\<forall>w\<in>set ws. is_space w" "is_upper c"
    and m: "m = ds @ ''.'' @ ws @ ''Response '' @ [c]"
  shows "js_match match_label m = Some (drop (length m - 10) m)"
    and "drop (length m - 10) m = ''Response '' @ [c]"
proof -
  let ?pre = "ds @ ''.'' @ ws"
  let ?lab = "''Response '' @ [c]"
  have mm: "m = ?pre @ ?lab" unfolding m by simp
  have len: "length ?lab = 10" by simp
  have "\<forall>x\<in>set ?pre. x \<noteq> CHR ''R''"
    using assms(2,3) by auto
  then have eq1: "js_match match_label (?pre @ ?lab) = js_match match_label ?lab"
    by (rule js_match_skip)
  have eq2: "js_match match_label ?lab = Some ?lab"
    by (rule js_match_label [OF assms(4)])
  have d: "drop (length (?pre @ ?lab) - length ?lab) (?pre @ ?lab) = ?lab"
    by (rule drop_to_suffix)
  show 2: "drop (length m - 10) m = ?lab"
    using d unfolding mm len .
  show "js_match match_label m = Some (drop (length m - 10) m)"
    unfolding 2 unfolding mm eq1 eq2 ..
qed

lemma numbered_elems:
  assumes "m \<in> set (match_all match_numbered s)"
  shows "\<exists>ds ws c. m = ds @ ''.'' @ ws @ ''Response '' @ [c]
       \<and> ds \<noteq> [] \<and> (\<forall>d\<in>set ds. is_digit d) \<and> (\<forall>w\<in>set ws. is_space w) \<and> is_upper c"
proof (rule match_all_elems [OF _ assms])
  fix t n
  assume "match_numbered t = Some n"
  from match_numbered_shape [OF this] obtain ds ws c b where
    t: "t = ds @ ''.'' @ ws @ ''Response '' @ c # b" and
    p: "ds \<noteq> []" "\<forall>d\<in>set ds. is_digit d" "\<forall>w\<in>set ws. is_space w" "is_upper c" and
    n: "n = length ds + 1 + length ws + 10" by blast
  have "t = (ds @ ''.'' @ ws @ ''Response '' @ [c]) @ b" unfolding t by simp
  moreover have "n = length (ds @ ''.'' @ ws @ ''Response '' @ [c])" unfolding n by simp
  ultimately have "take n t = ds @ ''.'' @ ws @ ''Response '' @ [c]"
    by (simp only: take_whole)
  with p n show "0 < n \<and> (\<exists>ds ws c. take n t = ds @ ''.'' @ ws @ ''Response '' @ [c]
       \<and> ds \<noteq> [] \<and> (\<forall>d\<in>set ds. is_digit d) \<and> (\<forall>w\<in>set ws. is_space w) \<and> is_upper c)"
    by blast
qed

lemma numbered_labels:
  "filter (\<lambda>x. x \<noteq> [])
     (map (\<lambda>m. case js_match match_label m of Some x \<Rightarrow> x | None \<Rightarrow> [])
        (match_all match_numbered s))
   = map (\<lambda>m. drop (length m - 10) m) (match_all match_numbered s)"
proof -
  have each: "(case js_match match_label m of Some x \<Rightarrow> x | None \<Rightarrow> []) = drop (length m - 10) m
      \<and> drop (length m - 10) m \<noteq> []"
    if "m \<in> set (match_all match_numbered s)" for m
  proof -
    from numbered_elems [OF that] obtain ds ws c where
      "m = ds @ ''.'' @ ws @ ''Response '' @ [c]"
      "ds \<noteq> []" "\<forall>d\<in>set ds. is_digit d" "\<forall>w\<in>set ws. is_space w" "is_upper c" by blast
    from numbered_entry_label [OF this(2,3,4,5,1)] show ?thesis by simp
  qed
  have e1: "map (\<lambda>m. case js_match match_label m of Some x \<Rightarrow> x | None \<Rightarrow> [])
        (match_all match_numbered s)
      = map (\<lambda>m. drop (length m - 10) m) (match_all match_numbered s)"
    using each by (intro map_cong) simp_all
  have e2: "filter (\<lambda>x. x \<noteq> []) (map (\<lambda>m. drop (length m - 10) m) (match_all match_numbered s))
      = map (\<lambda>m. drop (length m - 10) m) (match_all match_numbered s)"
    using each by (simp add: filter_id_conv)
  show ?thesis unfolding e1 e2 ..
qed

lemma numbered_found_label:
  "match_all match_numbered s \<noteq> [] \<Longrightarrow> \<exists>a c b. s = a @ ''Response '' @ c # b \<and> is_upper c"
proof (induction s)
  case Nil
  then show ?case by simp
next
  case (Cons x xs)
  show ?case
  proof (cases "match_numbered (x # xs)")
    case (Some n)
    from match_numbered_shape [OF this] obtain ds ws c b where
      "x # xs = ds @ ''.'' @ ws @ ''Response '' @ c # b" "is_upper c" by blast
    then have "x # xs = (ds @ ''.'' @ ws) @ ''Response '' @ c # b \<and> is_upper c" by simp
    then show ?thesis by blast
  next
    case None
    with Cons.prems have "match_all match_numbered xs \<noteq> []" by simp
    from Cons.IH [OF this] obtain a c b where "xs = a @ ''Response '' @ c # b" "is_upper c"
      by blast
    then have "x # xs = (x # a) @ ''Response '' @ c # b \<and> is_upper c" by simp
    then show ?thesis by blast
  qed
qed

lemma js_match_g_case:
  "(case js_match_g m s of None \<Rightarrow> d | Some ms \<Rightarrow> f ms)
     = (if match_all m s = [] then d else f (match_all m s))"
  by (cases "match_all m s") (simp_all add: js_match_g_def)

text \<open>The parser, with the matches of the two scans written out.\<close>

lemma parseRankingFromText_unfold:
  "parseRankingFromText t =
     (if js_includes t ''FINAL RANKING:'' \<and> length (js_split t ''FINAL RANKING:'') \<ge> 2
      then (if match_all match_numbered (js_split t ''FINAL RANKING:'' ! 1) \<noteq> []
            then map (\<lambda>m. drop (length m - 10) m)
                   (match_all match_numbered (js_split t ''FINAL RANKING:'' ! 1))
            else if match_all match_label (js_split t ''FINAL RANKING:'' ! 1) \<noteq> []
            then match_all match_label (js_split t ''FINAL RANKING:'' ! 1)
            else match_all match_label t)
      else match_all match_label t)"
  unfolding parseRankingFromText_def Let_def js_match_g_case numbered_labels
  by simp

lemma label_in_part:
  assumes "x \<in> set (js_split t sep)"
    and "\<exists>a c b. x = a @ ''Response '' @ c # b \<and> is_upper c"
  shows "\<exists>a c b. t = a @ ''Response '' @ c # b \<and> is_upper c"
proof -
  from js_split_from_parts [of x sep "[]" t] assms(1) obtain u v where t: "t = u @ x @ v"
    by (auto simp: js_split_def)
  from assms(2) obtain a c b where "x = a @ ''Response '' @ c # b" "is_upper c" by blast
  with t have "t = (u @ a) @ ''Response '' @ c # (b @ v) \<and> is_upper c" by simp
  then show ?thesis by blast
qed

text \<open>
  C2, amended.  For every text: without the marker \<^verbatim>\<open>FINAL RANKING:\<close> the result is the
  list of all \<^verbatim>\<open>Response <Letter>\<close> occurrences of the text, in order.  If the marker occurs
  exactly once, with \<open>sec\<close> the text after it, the result is the labels of the numbered
  entries \<^verbatim>\<open><number>. Response <Letter>\<close> of \<open>sec\<close> in order of appearance when there is
  one; otherwise the \<^verbatim>\<open>Response <Letter>\<close> occurrences inside \<open>sec\<close> when there is one; and
  only otherwise the occurrences anywhere in the text.  A text with no
  \<^verbatim>\<open>Response <Letter>\<close> occurrence gives the empty list, and every element of every result
  is \<^verbatim>\<open>Response\<close>, a space and one upper-case letter.
\<close>

theorem parse_ranking_cases:
  "(\<not> js_includes t ''FINAL RANKING:'' \<longrightarrow>
      parseRankingFromText t = match_all match_label t)
 \<and> (t = pre @ ''FINAL RANKING:'' @ sec
      \<and> \<not> js_includes (pre @ ''FINAL RANKING'') ''FINAL RANKING:''
      \<and> \<not> js_includes sec ''FINAL RANKING:'' \<longrightarrow>
      parseRankingFromText t
        = (if match_all match_numbered sec \<noteq> []
           then map (\<lambda>m. drop (length m - 10) m) (match_all match_numbered sec)
           else if match_all match_label sec \<noteq> [] then match_all match_label sec
           else match_all match_label t))
 \<and> (\<not> (\<exists>a c b. t = a @ ''Response '' @ c # b \<and> is_upper c) \<longrightarrow>
      parseRankingFromText t = [])
 \<and> (\<forall>l\<in>set (parseRankingFromText t). \<exists>c. l = ''Response '' @ [c] \<and> is_upper c)"
proof (intro conjI impI ballI)
  assume "\<not> js_includes t ''FINAL RANKING:''"
  then show "parseRankingFromText t = match_all match_label t"
    by (simp add: parseRankingFromText_unfold)
next
  assume h: "t = pre @ ''FINAL RANKING:'' @ sec
      \<and> \<not> js_includes (pre @ ''FINAL RANKING'') ''FINAL RANKING:''
      \<and> \<not> js_includes sec ''FINAL RANKING:''"
  have bl: "butlast ''FINAL RANKING:'' = ''FINAL RANKING''" by simp
  have ne: "''FINAL RANKING:'' \<noteq> []" by simp
  from h have first: "\<not> js_includes (pre @ butlast ''FINAL RANKING:'') ''FINAL RANKING:''"
    unfolding bl by blast
  from h have rest: "\<not> js_includes sec ''FINAL RANKING:''" by blast
  from h have t: "t = pre @ ''FINAL RANKING:'' @ sec" by blast
  have sp: "js_split t ''FINAL RANKING:'' = [pre, sec]"
    unfolding t by (rule js_split_once [OF ne first rest])
  have inc: "js_includes t ''FINAL RANKING:''"
    unfolding js_includes_iff using t by blast
  show "parseRankingFromText t
        = (if match_all match_numbered sec \<noteq> []
           then map (\<lambda>m. drop (length m - 10) m) (match_all match_numbered sec)
           else if match_all match_label sec \<noteq> [] then match_all match_label sec
           else match_all match_label t)"
    unfolding parseRankingFromText_unfold sp using inc by simp
next
  assume none: "\<not> (\<exists>a c b. t = a @ ''Response '' @ c # b \<and> is_upper c)"
  then have whole: "match_all match_label t = []"
    using labels_found_iff [of t] by blast
  have part: "match_all match_numbered x = [] \<and> match_all match_label x = []"
    if "x \<in> set (js_split t ''FINAL RANKING:'')" for x
  proof -
    from label_in_part [OF that] none
    have nx: "\<not> (\<exists>a c b. x = a @ ''Response '' @ c # b \<and> is_upper c)" by blast
    then have "match_all match_label x = []" using labels_found_iff [of x] by blast
    moreover from nx have "match_all match_numbered x = []"
      using numbered_found_label [of x] by blast
    ultimately show ?thesis by blast
  qed
  show "parseRankingFromText t = []"
  proof (cases "length (js_split t ''FINAL RANKING:'') \<ge> 2")
    case True
    then have "js_split t ''FINAL RANKING:'' ! 1 \<in> set (js_split t ''FINAL RANKING:'')"
      by (intro nth_mem) simp
    from part [OF this] whole show ?thesis
      unfolding parseRankingFromText_unfold by simp
  next
    case False
    with whole show ?thesis unfolding parseRankingFromText_unfold by simp
  qed
next
  fix l
  assume l: "l \<in> set (parseRankingFromText t)"
  let ?sec = "js_split t ''FINAL RANKING:'' ! 1"
  from l consider "l \<in> set (match_all match_label t)" | "l \<in> set (match_all match_label ?sec)"
    | "l \<in> set (map (\<lambda>m. drop (length m - 10) m) (match_all match_numbered ?sec))"
    unfolding parseRankingFromText_unfold by (auto split: if_splits)
  then show "\<exists>c. l = ''Response '' @ [c] \<and> is_upper c"
  proof cases
    case 1
    then show ?thesis by (rule match_all_label_shape)
  next
    case 2
    then show ?thesis by (rule match_all_label_shape)
  next
    case 3
    then obtain m where m: "m \<in> set (match_all match_numbered ?sec)"
      "l = drop (length m - 10) m" by auto
    from numbered_elems [OF m(1)] obtain ds ws c where
      "m = ds @ ''.'' @ ws @ ''Response '' @ [c]"
      "ds \<noteq> []" "\<forall>d\<in>set ds. is_digit d" "\<forall>w\<in>set ws. is_space w" "is_upper c" by blast
    from numbered_entry_label(2) [OF this(2,3,4,5,1)] this(5) m(2) show ?thesis by blast
  qed
qed

theorem parse_ranking_cases_witness:
  "parseRankingFromText (''Response B is good'' @ [newline] @ ''FINAL RANKING:''
       @ [newline] @ ''1. Response C'' @ [newline] @ ''2. Response A'')
     = [''Response C'', ''Response A'']
   \<and> parseRankingFromText ''Response B beats Response A'' = [''Response B'', ''Response A'']
   \<and> parseRankingFromText ''FINAL RANKING: none, see response b'' = []"
proof -
  let ?pre = "''Response B is good'' @ [newline]"
  let ?sec = "[newline] @ ''1. Response C'' @ [newline] @ ''2. Response A''"
  have first: "\<not> js_includes (?pre @ ''FINAL RANKING'') ''FINAL RANKING:''" by code_simp
  have rest: "\<not> js_includes ?sec ''FINAL RANKING:''" by code_simp
  have num: "match_all match_numbered ?sec = [''1. Response C'', ''2. Response A'']"
    by code_simp
  have a: "parseRankingFromText (?pre @ ''FINAL RANKING:'' @ ?sec)
      = [''Response C'', ''Response A'']"
    using parse_ranking_cases [of "?pre @ ''FINAL RANKING:'' @ ?sec" ?pre ?sec] first rest
    unfolding num by simp
  have nomark: "\<not> js_includes ''Response B beats Response A'' ''FINAL RANKING:''" by code_simp
  have lab: "match_all match_label ''Response B beats Response A''
      = [''Response B'', ''Response A'']" by code_simp
  have b: "parseRankingFromText ''Response B beats Response A'' = [''Response B'', ''Response A'']"
    using parse_ranking_cases [of "''Response B beats Response A''" "[]" "[]"] nomark
    unfolding lab by simp
  have nolab: "match_all match_label ''FINAL RANKING: none, see response b'' = []" by code_simp
  have none: "\<not> (\<exists>a c b. ''FINAL RANKING: none, see response b'' = a @ ''Response '' @ c # b
      \<and> is_upper c)"
    using labels_found_iff [of "''FINAL RANKING: none, see response b''"] nolab by blast
  have c: "parseRankingFromText ''FINAL RANKING: none, see response b'' = []"
    using parse_ranking_cases [of "''FINAL RANKING: none, see response b''" "[]" "[]"] none
    by blast
  from a b c show ?thesis by simp
qed

text \<open>
  C2, as the claim states it, fails when the section after the marker holds a label but no
  numbered entry: the labels of the section are returned and the label before the marker
  is not, although there is no numbered match and the occurrences anywhere in the text
  are \<^verbatim>\<open>Response A\<close>, \<^verbatim>\<open>Response B\<close>.
\<close>

theorem section_labels_shadow_earlier_labels:
  "js_includes ''Response A is best. FINAL RANKING: Response B'' ''FINAL RANKING:''
   \<and> js_split ''Response A is best. FINAL RANKING: Response B'' ''FINAL RANKING:''
       = [''Response A is best. '', '' Response B'']
   \<and> match_all match_numbered '' Response B'' = []
   \<and> match_all match_label ''Response A is best. FINAL RANKING: Response B''
       = [''Response A'', ''Response B'']
   \<and> parseRankingFromText ''Response A is best. FINAL RANKING: Response B'' = [''Response B'']"
proof -
  have a: "js_includes ''Response A is best. FINAL RANKING: Response B'' ''FINAL RANKING:''"
    by code_simp
  have b: "js_split ''Response A is best. FINAL RANKING: Response B'' ''FINAL RANKING:''
       = [''Response A is best. '', '' Response B'']" by code_simp
  have c: "match_all match_numbered '' Response B'' = []" by code_simp
  have d: "match_all match_label ''Response A is best. FINAL RANKING: Response B''
       = [''Response A'', ''Response B'']" by code_simp
  have e: "parseRankingFromText ''Response A is best. FINAL RANKING: Response B''
       = [''Response B'']" by code_simp
  from a b c d e show ?thesis by blast
qed

end
